theory Spec2Isabelle
  imports Complex_Main "HOL-Library.Multiset"
begin

section \<open>Exceptions and results\<close>

text \<open>
  The Python exceptions that \<^verbatim>\<open>dns_compare.py\<close> can raise or meet. A raise is the
  \<open>Inl\<close> branch of a sum. \<open>RuntimeError msg cause\<close> carries the message and the
  exception named by \<^verbatim>\<open>raise ... from e\<close> (\<open>None\<close> for a bare raise).
  \<open>CancelledError\<close> is the only one that is not a subclass of \<^verbatim>\<open>Exception\<close>;
  \<open>OSError\<close> stands for a process-level error of \<^verbatim>\<open>create_subprocess_exec\<close>.
\<close>

datatype exn =
    CancelledError
  | OSError string
  | ValueError string
  | TypeError
  | IndexError
  | RuntimeError string "exn option"

fun is_Exception :: "exn \<Rightarrow> bool" where
  "is_Exception CancelledError = False"
| "is_Exception _ = True"

definition ebind :: "exn + 'a \<Rightarrow> ('a \<Rightarrow> exn + 'b) \<Rightarrow> exn + 'b" where
  "ebind x f = (case x of Inl e \<Rightarrow> Inl e | Inr v \<Rightarrow> f v)"

section \<open>The regular-expression engine, as far as the program uses it\<close>

text \<open>
  The constructs of Python's \<^verbatim>\<open>re\<close> that \<^verbatim>\<open>PING_RESULTS_REGEX\<close> is built from:
  literal text, \<^verbatim>\<open>\d+\<close> and \<^verbatim>\<open>\d*\<close> (\<open>Digits 1\<close> and \<open>Digits 0\<close>), a greedy
  optional \<^verbatim>\<open>(?:r)?\<close>, concatenation, a named group \<^verbatim>\<open>(?P<n>r)\<close> and the
  end-of-text anchor \<^verbatim>\<open>\Z\<close>. Text is a list of bytes and \<^verbatim>\<open>\d\<close> is an ASCII
  digit; the decimal digits beyond ASCII, which \<^verbatim>\<open>\d\<close> also matches on a Python
  \<^verbatim>\<open>str\<close>, are left out. The flag \<^verbatim>\<open>re.MULTILINE\<close> changes only \<^verbatim>\<open>^\<close> and \<^verbatim>\<open>$\<close>, which the
  pattern does not contain.
\<close>

datatype regex =
    Lit string
  | Digits nat
  | Opt regex
  | Cat "regex list"
  | Group string regex
  | End_Z

type_synonym groups = "string \<rightharpoonup> string"

definition is_digit :: "char \<Rightarrow> bool" where
  "is_digit c = (c \<in> set ''0123456789'')"

fun lit_match :: "string \<Rightarrow> string \<Rightarrow> string option" where
  "lit_match [] s = Some s"
| "lit_match (c # l) [] = None"
| "lit_match (c # l) (d # s) = (if c = d then lit_match l s else None)"

text \<open>
  A greedy repetition takes the longest run first and gives characters back one at a
  time while the rest of the pattern fails, down to the minimum count \<open>lo\<close>.
\<close>

fun backtrack :: "nat \<Rightarrow> nat \<Rightarrow> string \<Rightarrow> (string \<Rightarrow> 'a option) \<Rightarrow> 'a option" where
  "backtrack lo 0 s k = (if 0 < lo then None else k s)"
| "backtrack lo (Suc n) s k =
     (if Suc n < lo then None
      else case k (drop (Suc n) s) of Some r \<Rightarrow> Some r | None \<Rightarrow> backtrack lo n s k)"

text \<open>
  The backtracking matcher in continuation-passing style: \<open>rmatch r s g k\<close> matches
  \<open>r\<close> at the start of \<open>s\<close> with the groups \<open>g\<close> set so far and hands the rest of the
  text and the groups to \<open>k\<close>, which matches what follows \<open>r\<close> in the pattern. The
  first alternative for which \<open>k\<close> succeeds is the result.
\<close>

fun rmatch :: "regex \<Rightarrow> string \<Rightarrow> groups \<Rightarrow> (string \<Rightarrow> groups \<Rightarrow> groups option) \<Rightarrow> groups option" where
  "rmatch (Lit l) s g k = (case lit_match l s of None \<Rightarrow> None | Some s' \<Rightarrow> k s' g)"
| "rmatch (Digits lo) s g k = backtrack lo (length (takeWhile is_digit s)) s (\<lambda>s'. k s' g)"
| "rmatch (Opt r) s g k = (case rmatch r s g k of Some m \<Rightarrow> Some m | None \<Rightarrow> k s g)"
| "rmatch (Cat []) s g k = k s g"
| "rmatch (Cat (r # rs)) s g k = rmatch r s g (\<lambda>s' g'. rmatch (Cat rs) s' g' k)"
| "rmatch (Group n r) s g k =
     rmatch r s g (\<lambda>s' g'. k s' (g'(n \<mapsto> take (length s - length s') s)))"
| "rmatch End_Z s g k = (if s = [] then k s g else None)"

definition matched :: "string \<Rightarrow> groups \<Rightarrow> groups option" where
  "matched s g = Some g"

text \<open>\<^verbatim>\<open>pattern.search(text)\<close>: the match at the leftmost start position that has one.\<close>

fun search :: "regex \<Rightarrow> string \<Rightarrow> groups option" where
  "search r [] = rmatch r [] Map.empty matched"
| "search r (c # s) =
     (case rmatch r (c # s) Map.empty matched of Some m \<Rightarrow> Some m | None \<Rightarrow> search r s)"

text \<open>
  Where a greedy run of digits, or a match of \<^verbatim>\<open>FLOAT\<close>, cannot be extended: the text
  that follows does not start with a digit (nor, for \<^verbatim>\<open>FLOAT\<close>, with a point).
\<close>

definition digits_stop :: "string \<Rightarrow> bool" where
  "digits_stop s = (takeWhile is_digit s = [])"

definition float_stop :: "string \<Rightarrow> bool" where
  "float_stop s = (takeWhile is_digit s = [] \<and> lit_match ''.'' s = None)"

section \<open>PingResults\<close>

definition INT_re :: regex where
  "INT_re = Digits 1"

definition FLOAT_re :: regex where
  "FLOAT_re = Cat [Digits 1, Opt (Lit ''.''), Digits 0]"

definition PING_RESULTS_REGEX :: regex where
  "PING_RESULTS_REGEX = Cat
     [Group ''transmitted'' INT_re, Lit '' packets transmitted, '',
      Group ''received'' INT_re, Lit '' received, '',
      Opt (Cat [Lit ''+'', INT_re, Lit '' errors, '']),
      Group ''packet_loss'' FLOAT_re, Lit ''% packet loss, time '', FLOAT_re, Lit ''ms\<newline>'',
      Opt (Cat [Lit ''rtt min/avg/max/mdev = '',
                Group ''min'' FLOAT_re, Lit ''/'', Group ''avg'' FLOAT_re, Lit ''/'',
                Group ''max'' FLOAT_re, Lit ''/'', Group ''mdev'' FLOAT_re, Lit '' ms'']),
      Lit ''\<newline>'',
      End_Z]"

text \<open>
  The built-ins \<^verbatim>\<open>int\<close> and \<^verbatim>\<open>float\<close> on the texts the groups can hold. A Python
  float is modelled by the real number its decimal text denotes (no rounding, no
  overflow to \<^verbatim>\<open>inf\<close>), an int by an unbounded integer (the limit that recent
  Python versions put on the number of digits that \<^verbatim>\<open>int\<close> converts is left out). Any text that is not a digit
  string, or digits with an optional point and fraction, is answered with
  \<open>ValueError\<close>: the built-ins accept more (signs, blanks, exponents), so the model
  raises at least where Python does.
\<close>

definition digit_val :: "char \<Rightarrow> nat" where
  "digit_val c = of_char c - 48"

definition decimal :: "string \<Rightarrow> nat" where
  "decimal s = foldl (\<lambda>acc c. 10 * acc + digit_val c) 0 s"

definition is_INT :: "string \<Rightarrow> bool" where
  "is_INT s = (s \<noteq> [] \<and> list_all is_digit s)"

definition is_FLOAT :: "string \<Rightarrow> bool" where
  "is_FLOAT s =
     (let ip = takeWhile is_digit s; rest = dropWhile is_digit s
      in ip \<noteq> [] \<and> (rest = [] \<or> (hd rest = CHR ''.'' \<and> list_all is_digit (tl rest))))"

definition float_val :: "string \<Rightarrow> real" where
  "float_val s =
     (let ip = takeWhile is_digit s; fp = drop 1 (dropWhile is_digit s)
      in of_nat (decimal ip) + of_nat (decimal fp) / 10 ^ length fp)"

definition py_int :: "string option \<Rightarrow> exn + int" where
  "py_int x = (case x of None \<Rightarrow> Inl TypeError
     | Some s \<Rightarrow> if is_INT s then Inr (int (decimal s)) else Inl (ValueError s))"

definition py_float :: "string option \<Rightarrow> exn + real" where
  "py_float x = (case x of None \<Rightarrow> Inl TypeError
     | Some s \<Rightarrow> if is_FLOAT s then Inr (float_val s) else Inl (ValueError s))"

record PingResults =
  transmitted :: int
  received :: int
  packet_loss :: real
  min_rtt :: "real option"
  avg :: "real option"
  max_rtt :: "real option"
  mdev :: "real option"

definition float_or_none :: "string option \<Rightarrow> exn + real option" where
  "float_or_none f = (if f = None then Inr None else ebind (py_float f) (\<lambda>v. Inr (Some v)))"

text \<open>
  \<^verbatim>\<open>PingResults.__init__\<close>; the fields \<^verbatim>\<open>min\<close> and \<^verbatim>\<open>max\<close> are \<open>min_rtt\<close> and
  \<open>max_rtt\<close> here.
\<close>

definition PingResults_init :: "string \<Rightarrow> exn + PingResults" where
  "PingResults_init output =
     (case search PING_RESULTS_REGEX output of
        None \<Rightarrow> Inl (RuntimeError (''\<newline>'' @ output) None)
      | Some m \<Rightarrow>
          ebind (py_int (m ''transmitted'')) (\<lambda>t.
          ebind (py_int (m ''received'')) (\<lambda>r.
          ebind (py_float (m ''packet_loss'')) (\<lambda>pl.
          ebind (float_or_none (m ''min'')) (\<lambda>mn.
          ebind (float_or_none (m ''avg'')) (\<lambda>av.
          ebind (float_or_none (m ''max'')) (\<lambda>mx.
          ebind (float_or_none (m ''mdev'')) (\<lambda>md.
          Inr \<lparr>transmitted = t, received = r, packet_loss = pl / 100,
               min_rtt = mn, avg = av, max_rtt = mx, mdev = md\<rparr>))))))))"

text \<open>
  The grammar of section 4.1 of the specification, written as the text it describes:
  the statistics line with its optional error count, a newline, the optional RTT line,
  a newline, and nothing after it.
\<close>

definition errors_text :: "string option \<Rightarrow> string" where
  "errors_text errs = (case errs of None \<Rightarrow> [] | Some n \<Rightarrow> ''+'' @ n @ '' errors, '')"

definition rtt_text :: "(string \<times> string \<times> string \<times> string) option \<Rightarrow> string" where
  "rtt_text rtt = (case rtt of None \<Rightarrow> []
     | Some (a, b, c, d) \<Rightarrow>
         ''rtt min/avg/max/mdev = '' @ a @ ''/'' @ b @ ''/'' @ c @ ''/'' @ d @ '' ms'')"

definition ping_text ::
  "string \<Rightarrow> string \<Rightarrow> string option \<Rightarrow> string \<Rightarrow> string \<Rightarrow>
   (string \<times> string \<times> string \<times> string) option \<Rightarrow> string" where
  "ping_text t r errs loss tm rtt =
     t @ '' packets transmitted, '' @ r @ '' received, '' @ errors_text errs @
     loss @ ''% packet loss, time '' @ tm @ ''ms\<newline>'' @ rtt_text rtt @ ''\<newline>''"

definition errors_ok :: "string option \<Rightarrow> bool" where
  "errors_ok errs = (case errs of None \<Rightarrow> True | Some n \<Rightarrow> is_INT n)"

definition rtt_ok :: "(string \<times> string \<times> string \<times> string) option \<Rightarrow> bool" where
  "rtt_ok rtt = (case rtt of None \<Rightarrow> True
     | Some (a, b, c, d) \<Rightarrow> is_FLOAT a \<and> is_FLOAT b \<and> is_FLOAT c \<and> is_FLOAT d)"

definition fields_ok ::
  "string \<Rightarrow> string \<Rightarrow> string option \<Rightarrow> string \<Rightarrow> string \<Rightarrow>
   (string \<times> string \<times> string \<times> string) option \<Rightarrow> bool" where
  "fields_ok t r errs loss tm rtt =
     (is_INT t \<and> is_INT r \<and> errors_ok errs \<and> is_FLOAT loss \<and> is_FLOAT tm \<and> rtt_ok rtt)"


text \<open>The groups a match of the grammar sets, and the record built from them.\<close>

definition rtt_groups :: "(string \<times> string \<times> string \<times> string) option \<Rightarrow> groups \<Rightarrow> groups" where
  "rtt_groups rtt g = (case rtt of None \<Rightarrow> g
     | Some (a, b, c, d) \<Rightarrow> g(''min'' \<mapsto> a, ''avg'' \<mapsto> b, ''max'' \<mapsto> c, ''mdev'' \<mapsto> d))"

definition ping_groups ::
  "string \<Rightarrow> string \<Rightarrow> string \<Rightarrow> (string \<times> string \<times> string \<times> string) option \<Rightarrow> groups" where
  "ping_groups t r loss rtt =
     rtt_groups rtt (Map.empty(''transmitted'' \<mapsto> t, ''received'' \<mapsto> r, ''packet_loss'' \<mapsto> loss))"

definition ping_record ::
  "string \<Rightarrow> string \<Rightarrow> string \<Rightarrow> (string \<times> string \<times> string \<times> string) option \<Rightarrow> PingResults" where
  "ping_record t r loss rtt =
     \<lparr>transmitted = int (decimal t), received = int (decimal r),
      packet_loss = float_val loss / 100,
      min_rtt = map_option (\<lambda>(a, b, c, d). float_val a) rtt,
      avg = map_option (\<lambda>(a, b, c, d). float_val b) rtt,
      max_rtt = map_option (\<lambda>(a, b, c, d). float_val c) rtt,
      mdev = map_option (\<lambda>(a, b, c, d). float_val d) rtt\<rparr>"

section \<open>The external utilities: ping and dig\<close>

text \<open>
  A subprocess is an oracle from the argument vector to what the two awaits
  (\<^verbatim>\<open>create_subprocess_exec\<close>, \<^verbatim>\<open>communicate\<close>) give: an exception raised there, or the
  return code with the decoded standard output and standard error.
\<close>

type_synonym proc = "exn + (int \<times> string \<times> string)"
type_synonym env = "string list \<Rightarrow> proc"

definition ping_cmd :: "string \<Rightarrow> nat \<Rightarrow> string list" where
  "ping_cmd addr count' = [''ping'', ''-qc1'', addr]"

definition ping :: "env \<Rightarrow> string \<Rightarrow> nat \<Rightarrow> exn + PingResults" where
  "ping e addr count' =
     (case e (ping_cmd addr count') of
        Inl x \<Rightarrow> Inl x
      | Inr (returncode, stdout, stderr) \<Rightarrow>
          (case PingResults_init stdout of
             Inr results \<Rightarrow> Inr results
           | Inl x \<Rightarrow> if is_Exception x then Inl (RuntimeError stderr (Some x)) else Inl x))"

definition is_space :: "char \<Rightarrow> bool" where
  "is_space c = (of_char c \<in> {9, 10, 11, 12, 13, 28, 29, 30, 31, 32 :: nat})"

definition py_strip :: "string \<Rightarrow> string" where
  "py_strip s = rev (dropWhile is_space (rev (dropWhile is_space s)))"

fun split_from :: "string \<Rightarrow> string \<Rightarrow> string list" where
  "split_from cur [] = (if cur = [] then [] else [cur])"
| "split_from cur (c # s) =
     (if is_space c then (if cur = [] then split_from [] s else cur # split_from [] s)
      else split_from (cur @ [c]) s)"

definition py_split :: "string \<Rightarrow> string list" where
  "py_split s = split_from [] s"

definition dig_cmd :: "string \<Rightarrow> string option \<Rightarrow> string list" where
  "dig_cmd domain server =
     [''dig'', ''+short''] @ (case server of None \<Rightarrow> [] | Some sv \<Rightarrow> [''@'' @ sv]) @ [domain]"

definition dig :: "env \<Rightarrow> string \<Rightarrow> string option \<Rightarrow> exn + string option" where
  "dig e domain server =
     (case e (dig_cmd domain server) of
        Inl x \<Rightarrow> Inl x
      | Inr (returncode, stdout, stderr) \<Rightarrow>
          if returncode \<noteq> 0 then Inl (RuntimeError stderr None)
          else (case py_split (py_strip stdout) of
                  [] \<Rightarrow> Inr None
                | a # addrs \<Rightarrow> Inr (Some a)))"

section \<open>get_results\<close>

definition str_opt :: "string option \<Rightarrow> string" where
  "str_opt x = (case x of None \<Rightarrow> ''None'' | Some s \<Rightarrow> s)"

definition dig_error :: "string \<Rightarrow> string option \<Rightarrow> string option \<Rightarrow> string" where
  "dig_error domain provider server =
     ''Dig error: '' @ domain @ '' from '' @ str_opt provider @ '' ('' @ str_opt server @ '')''"

definition ping_error :: "string \<Rightarrow> string \<Rightarrow> string option \<Rightarrow> string option \<Rightarrow> string" where
  "ping_error domain addr provider server =
     ''Ping error: '' @ domain @ '' ('' @ addr @ '') from '' @ str_opt provider @
     '' ('' @ str_opt server @ '')''"

text \<open>
  The two \<^verbatim>\<open>try\<close> blocks of \<^verbatim>\<open>get_results\<close>: \<^verbatim>\<open>except asyncio.CancelledError: raise\<close>
  first, then \<^verbatim>\<open>except Exception as e: raise RuntimeError(msg) from e\<close>. The semaphore
  of the \<^verbatim>\<open>async with\<close> does not change what one task returns; it is modelled with the
  scheduler below.
\<close>

definition reraise :: "string \<Rightarrow> exn \<Rightarrow> exn" where
  "reraise msg x =
     (if x = CancelledError then x
      else if is_Exception x then RuntimeError msg (Some x)
      else x)"

definition get_results ::
  "env \<Rightarrow> string \<Rightarrow> string option \<Rightarrow> string option \<Rightarrow> nat \<Rightarrow> exn + PingResults option" where
  "get_results e domain server provider count' =
     (case dig e domain server of
        Inl x \<Rightarrow> Inl (reraise (dig_error domain provider server) x)
      | Inr None \<Rightarrow> Inr None
      | Inr (Some addr) \<Rightarrow>
          (case ping e addr count' of
             Inl x \<Rightarrow> Inl (reraise (ping_error domain addr provider server) x)
           | Inr results \<Rightarrow> Inr (Some results)))"

section \<open>main: the server assignment\<close>

text \<open>
  \<^verbatim>\<open>SERVERS\<close> is a dictionary; its items in insertion order are an association list.
  The constants of \<^verbatim>\<open>main\<close> follow. The list \<^verbatim>\<open>DOMAINS\<close> is a parameter of the model.
\<close>

type_synonym config = "(string \<times> string list) list"

definition SERVERS :: config where
  "SERVERS = [(''cloudflare'', [''1.1.1.1'', ''1.0.0.1'']),
              (''google'', [''8.8.8.8'', ''8.8.4.4''])]"


definition best_of :: nat where
  "best_of = 3"

definition semaphore_value :: nat where
  "semaphore_value = 50"

text \<open>
  The body of the inner loop: append an empty row when \<^verbatim>\<open>len(server_addrs) <= i\<close>,
  then \<^verbatim>\<open>server_addrs[i].append((server, addr))\<close>, which raises \<^verbatim>\<open>IndexError\<close>
  when \<open>i\<close> is still out of range.
\<close>

definition place :: "string \<Rightarrow> nat \<times> string \<Rightarrow> (string \<times> string) list list
    \<Rightarrow> exn + (string \<times> string) list list" where
  "place server ia server_addrs =
     (let i = fst ia; addr = snd ia;
          rows = (if length server_addrs \<le> i then server_addrs @ [[]] else server_addrs)
      in if i < length rows then Inr (rows[i := rows ! i @ [(server, addr)]])
         else Inl IndexError)"

fun place_all :: "string \<Rightarrow> (nat \<times> string) list \<Rightarrow> (string \<times> string) list list
    \<Rightarrow> exn + (string \<times> string) list list" where
  "place_all server [] server_addrs = Inr server_addrs"
| "place_all server (ia # rest) server_addrs =
     ebind (place server ia server_addrs) (place_all server rest)"

fun place_servers :: "config \<Rightarrow> (string \<times> string) list list
    \<Rightarrow> exn + (string \<times> string) list list" where
  "place_servers [] server_addrs = Inr server_addrs"
| "place_servers ((server, addrs) # items) server_addrs =
     ebind (place_all server (enumerate 0 addrs) server_addrs) (place_servers items)"

definition server_assignment :: "config \<Rightarrow> exn + (string \<times> string) list" where
  "server_assignment servers = ebind (place_servers servers []) (\<lambda>rows. Inr (concat rows))"

text \<open>
  The order the specification describes: index-major, provider-order-minor, a provider
  without an \<open>i\<close>-th server skipped at index \<open>i\<close>.
\<close>

definition servers_at :: "config \<Rightarrow> nat \<Rightarrow> (string \<times> string) list" where
  "servers_at servers i =
     concat (map (\<lambda>(p, addrs). if i < length addrs then [(p, addrs ! i)] else []) servers)"

definition most_servers :: "config \<Rightarrow> nat" where
  "most_servers servers = foldr (\<lambda>(p, addrs) n. max (length addrs) n) servers 0"

definition index_major :: "config \<Rightarrow> (string \<times> string) list" where
  "index_major servers = concat (map (servers_at servers) [0..<most_servers servers])"

definition config_pairs :: "config \<Rightarrow> (string \<times> string) list" where
  "config_pairs servers = concat (map (\<lambda>(p, addrs). map (Pair p) addrs) servers)"

text \<open>
  The rows of \<^verbatim>\<open>server_addrs\<close> in the middle of the inner loop: the providers in
  \<open>done\<close> are placed, and so are the first \<open>k\<close> addresses of the provider \<open>server\<close>.
\<close>

definition partial_rows :: "config \<Rightarrow> string \<Rightarrow> string list \<Rightarrow> nat \<Rightarrow> (string \<times> string) list list" where
  "partial_rows done server addrs k =
     map (\<lambda>i. servers_at done i @ (if i < k then [(server, addrs ! i)] else []))
         [0..<max (most_servers done) k]"

section \<open>main: the batch\<close>





section \<open>main: the aggregation\<close>

definition mins_of :: "PingResults option list \<Rightarrow> real option list" where
  "mins_of results = map (\<lambda>result. case result of None \<Rightarrow> None | Some r \<Rightarrow> min_rtt r) results"

text \<open>
  \<^verbatim>\<open>results_by_provider\<close> is a \<^verbatim>\<open>defaultdict\<close> of \<^verbatim>\<open>defaultdict(list)\<close>: a total
  function from domain and provider to a list, empty until something is appended.
\<close>

definition results_by_provider ::
  "(string \<times> string \<times> real option) list \<Rightarrow> string \<Rightarrow> string \<Rightarrow> real option list" where
  "results_by_provider rows =
     foldl (\<lambda>d (provider, domain, m). d(domain := (d domain)(provider := d domain provider @ [m])))
           (\<lambda>domain provider. []) rows"

text \<open>
  \<^verbatim>\<open>filter(None, mins)\<close> keeps the items that are true in Python: \<^verbatim>\<open>None\<close> is false,
  and so is the float \<^verbatim>\<open>0.0\<close>.
\<close>

fun truthy :: "real option \<Rightarrow> bool" where
  "truthy None = False"
| "truthy (Some x) = (x \<noteq> 0)"

text \<open>
  One cell of the table, before it is printed: the mean, or \<open>No_data\<close> where the
  program prints the infinity sign, and the pair of counts where it appends
  \<^verbatim>\<open>(filtered_len/len(mins))\<close>.
\<close>

datatype cell_mean = Mean real | No_data

definition cell :: "real option list \<Rightarrow> cell_mean \<times> (nat \<times> nat) option" where
  "cell mins =
     (let filtered = filter truthy mins;
          sum' = sum_list (map the filtered);
          filtered_len = length filtered
      in ((if filtered_len \<noteq> 0 then Mean (sum' / real filtered_len) else No_data),
          (if filtered_len = length mins then None else Some (filtered_len, length mins))))"

section \<open>The semaphore across the tasks of a batch\<close>

text \<open>
  What one task does with the shared \<^verbatim>\<open>asyncio.Semaphore\<close>, in the order of the body of
  \<^verbatim>\<open>get_results\<close>: it waits in \<^verbatim>\<open>async with semaphore\<close>, enters when the value is
  positive (the value goes down by one), awaits \<^verbatim>\<open>dig\<close>, then either leaves the block
  (no address, an exception, a cancellation) or awaits \<^verbatim>\<open>ping\<close> and leaves after it;
  leaving the block releases the semaphore (the value goes up by one). A task
  cancelled while it waits never enters. The tasks of a batch interleave in any order.
\<close>

datatype phase = Waiting | Resolving | Probing | Finished

record sched =
  phases :: "phase list"
  sem :: nat

datatype event =
    Acquire nat
  | Cancel_waiting nat
  | Dig_returns_addr nat
  | Dig_leaves nat
  | Ping_leaves nat

definition at_phase :: "sched \<Rightarrow> nat \<Rightarrow> phase \<Rightarrow> bool" where
  "at_phase s i p = (i < length (phases s) \<and> phases s ! i = p)"

definition move :: "sched \<Rightarrow> nat \<Rightarrow> phase \<Rightarrow> nat \<Rightarrow> sched" where
  "move s i p v = \<lparr>phases = (phases s)[i := p], sem = v\<rparr>"

fun step :: "event \<Rightarrow> sched \<Rightarrow> sched option" where
  "step (Acquire i) s =
     (if at_phase s i Waiting \<and> 0 < sem s then Some (move s i Resolving (sem s - 1)) else None)"
| "step (Cancel_waiting i) s =
     (if at_phase s i Waiting then Some (move s i Finished (sem s)) else None)"
| "step (Dig_returns_addr i) s =
     (if at_phase s i Resolving then Some (move s i Probing (sem s)) else None)"
| "step (Dig_leaves i) s =
     (if at_phase s i Resolving then Some (move s i Finished (sem s + 1)) else None)"
| "step (Ping_leaves i) s =
     (if at_phase s i Probing then Some (move s i Finished (sem s + 1)) else None)"

fun run :: "event list \<Rightarrow> sched \<Rightarrow> sched option" where
  "run [] s = Some s"
| "run (ev # evs) s = (case step ev s of None \<Rightarrow> None | Some s' \<Rightarrow> run evs s')"

definition start :: "nat \<Rightarrow> sched" where
  "start n = \<lparr>phases = replicate n Waiting, sem = semaphore_value\<rparr>"

definition in_flight :: "sched \<Rightarrow> nat" where
  "in_flight s = length (filter (\<lambda>p. p = Resolving \<or> p = Probing) (phases s))"

section \<open>Sample inputs\<close>

text \<open>Outputs of \<^verbatim>\<open>ping -qc1\<close>: one reply, and no reply.\<close>

definition ping_header :: string where
  "ping_header = ''PING example.com (93.184.216.34) 56(84) bytes of data.\<newline>\<newline>--- example.com ping statistics ---\<newline>''"

definition ping_output_reply :: string where
  "ping_output_reply = ''PING example.com (93.184.216.34) 56(84) bytes of data.\<newline>\<newline>--- example.com ping statistics ---\<newline>1 packets transmitted, 1 received, 0% packet loss, time 0ms\<newline>rtt min/avg/max/mdev = 11.632/11.632/11.632/0.000 ms\<newline>''"


text \<open>
  Oracles for the subprocesses: \<^verbatim>\<open>dig\<close> exits with a non-zero status; \<^verbatim>\<open>dig\<close>
  prints nothing; every await is cancelled; \<^verbatim>\<open>dig\<close> prints an address and the await
  of \<^verbatim>\<open>ping\<close> is cancelled; \<^verbatim>\<open>dig\<close> prints an address and \<^verbatim>\<open>ping\<close> prints nothing
  on its standard output.
\<close>

definition env_dig_fails :: env where
  "env_dig_fails argv = Inr (9, [], '';; connection timed out; no servers could be reached'')"


definition env_cancelled :: env where
  "env_cancelled argv = Inl CancelledError"

definition env_ping_cancelled :: env where
  "env_ping_cancelled argv =
     (if take 1 argv = [''dig''] then Inr (0, ''93.184.216.34\<newline>'', []) else Inl CancelledError)"

definition env_ping_unreachable :: env where
  "env_ping_unreachable argv =
     (if take 1 argv = [''dig''] then Inr (0, ''93.184.216.34\<newline>'', [])
      else Inr (2, [], ''ping: connect: Network is unreachable''))"


section \<open>Properties of the matcher\<close>

subsection \<open>Literals, digit runs and numbers\<close>

lemma lit_match_append: "lit_match l (l @ s) = Some s"
  by (induction l) simp_all

lemma lit_match_Some: "lit_match l s = Some s' \<Longrightarrow> s = l @ s'"
  by (induction l s rule: lit_match.induct) (auto split: if_splits)

lemma backtrack_sound:
  "backtrack lo n s k = Some m \<Longrightarrow> \<exists>j. lo \<le> j \<and> j \<le> n \<and> k (drop j s) = Some m"
proof (induction n)
  case 0
  then show ?case by (auto split: if_splits)
next
  case (Suc n)
  show ?case
  proof (cases "k (drop (Suc n) s)")
    case None
    with Suc.prems have "backtrack lo n s k = Some m" by (auto split: if_splits)
    from Suc.IH[OF this] show ?thesis by (metis le_Suc_eq)
  next
    case (Some a)
    with Suc.prems have "lo \<le> Suc n" "a = m" by (auto split: if_splits)
    with Some show ?thesis by auto
  qed
qed

lemma backtrack_first:
  "lo \<le> n \<Longrightarrow> k (drop n s) = Some m \<Longrightarrow> backtrack lo n s k = Some m"
  by (cases n) auto

lemma not_digit_point [simp]: "\<not> is_digit CHR ''.''"
  by (simp add: is_digit_def)

lemma lit_E:
  assumes "rmatch (Lit l) s g k = Some m"
  obtains s' where "s = l @ s'" "k s' g = Some m"
  using assms by (auto split: option.splits dest: lit_match_Some)

lemma lit_I: "k s' g = Some m \<Longrightarrow> rmatch (Lit l) (l @ s') g k = Some m"
  by (simp add: lit_match_append)

lemma digits_E:
  assumes "rmatch (Digits lo) s g k = Some m"
  obtains w s' where "s = w @ s'" "list_all is_digit w" "lo \<le> length w" "k s' g = Some m"
proof -
  from assms obtain j where j: "lo \<le> j" "j \<le> length (takeWhile is_digit s)"
      "k (drop j s) g = Some m"
    by (auto dest: backtrack_sound)
  have "take j s = take j (takeWhile is_digit s)"
    using j(2) by (metis append_eq_conv_conj takeWhile_dropWhile_id take_append min.absorb2 take_all_iff
        append_take_drop_id le_refl take_take min.commute)
  then have "list_all is_digit (take j s)"
    by (metis in_set_takeD list_all_iff set_takeWhileD)
  moreover have "length (take j s) = j"
    using j(2) length_takeWhile_le[of is_digit s] by simp
  ultimately show ?thesis
    using that[of "take j s" "drop j s"] j by simp
qed

lemma digits_I:
  assumes "list_all is_digit w" "lo \<le> length w" "digits_stop s'" "k s' g = Some m"
  shows "rmatch (Digits lo) (w @ s') g k = Some m"
proof -
  have "takeWhile is_digit (w @ s') = w"
    using assms(1,3) by (simp add: takeWhile_append2 list_all_iff digits_stop_def)
  with assms show ?thesis by (simp add: backtrack_first)
qed

lemma int_E:
  assumes "rmatch INT_re s g k = Some m"
  obtains w s' where "s = w @ s'" "is_INT w" "k s' g = Some m"
proof -
  from assms obtain w s' where w: "s = w @ s'" "list_all is_digit w" "1 \<le> length w"
      "k s' g = Some m"
    unfolding INT_re_def by (elim digits_E)
  from w(3) have "w \<noteq> []" by auto
  with w(2) have "is_INT w" by (simp add: is_INT_def)
  with w(1) show ?thesis using w(4) by (rule that)
qed

lemma int_I:
  "is_INT w \<Longrightarrow> digits_stop s' \<Longrightarrow> k s' g = Some m \<Longrightarrow> rmatch INT_re (w @ s') g k = Some m"
  unfolding INT_re_def
  by (rule digits_I) (auto simp: is_INT_def Suc_le_eq)

lemma takeWhile_all_digits: "list_all is_digit w \<Longrightarrow> takeWhile is_digit w = w"
  by (simp add: list_all_iff)

lemma dropWhile_all_digits: "list_all is_digit w \<Longrightarrow> dropWhile is_digit w = []"
  by (simp add: list_all_iff)

lemma is_FLOAT_digits: "list_all is_digit w \<Longrightarrow> w \<noteq> [] \<Longrightarrow> is_FLOAT w"
  by (simp add: is_FLOAT_def takeWhile_all_digits dropWhile_all_digits)

lemma is_FLOAT_point:
  "list_all is_digit ip \<Longrightarrow> ip \<noteq> [] \<Longrightarrow> list_all is_digit fp \<Longrightarrow> is_FLOAT (ip @ ''.'' @ fp)"
  by (simp add: is_FLOAT_def list_all_iff)

lemma is_FLOAT_cases:
  assumes "is_FLOAT f"
  obtains (int) "is_INT f"
  | (point) ip fp where "f = ip @ ''.'' @ fp" "is_INT ip" "list_all is_digit fp"
proof (cases "dropWhile is_digit f = []")
  case True
  then have "takeWhile is_digit f = f"
    by (metis append_Nil2 takeWhile_dropWhile_id)
  with assms have "is_INT f"
    by (simp add: is_FLOAT_def is_INT_def Let_def list_all_iff)
  then show ?thesis by (rule int)
next
  case False
  with assms have h: "hd (dropWhile is_digit f) = CHR ''.''"
      "list_all is_digit (tl (dropWhile is_digit f))" "takeWhile is_digit f \<noteq> []"
    by (auto simp: is_FLOAT_def Let_def)
  from False h(1) have "dropWhile is_digit f = ''.'' @ tl (dropWhile is_digit f)"
    by (cases "dropWhile is_digit f") auto
  then have "f = takeWhile is_digit f @ ''.'' @ tl (dropWhile is_digit f)"
    by (metis takeWhile_dropWhile_id)
  moreover have "is_INT (takeWhile is_digit f)"
    using h(3) by (simp add: is_INT_def list_all_iff) (metis set_takeWhileD)
  ultimately show ?thesis using h(2) by (rule point)
qed

lemma float_E:
  assumes "rmatch FLOAT_re s g k = Some m"
  obtains w s' where "s = w @ s'" "is_FLOAT w" "k s' g = Some m"
proof -
  from assms have
    "rmatch (Digits 1) s g (\<lambda>s1 g1. rmatch (Opt (Lit ''.'')) s1 g1
        (\<lambda>s2 g2. rmatch (Digits 0) s2 g2 k)) = Some m"
    by (simp add: FLOAT_re_def)
  then obtain ip s1 where ip: "s = ip @ s1" "list_all is_digit ip" "1 \<le> length ip"
    and r1: "rmatch (Opt (Lit ''.'')) s1 g (\<lambda>s2 g2. rmatch (Digits 0) s2 g2 k) = Some m"
    by (elim digits_E)
  from ip(3) have ne: "ip \<noteq> []" by auto
  from r1 consider
      (dot) "rmatch (Lit ''.'') s1 g (\<lambda>s2 g2. rmatch (Digits 0) s2 g2 k) = Some m"
    | (nodot) "rmatch (Digits 0) s1 g k = Some m"
    by (auto split: option.splits)
  then show ?thesis
  proof cases
    case dot
    then obtain s2 where s2: "s1 = ''.'' @ s2" "rmatch (Digits 0) s2 g k = Some m"
      by (elim lit_E)
    then obtain fp s3 where fp: "s2 = fp @ s3" "list_all is_digit fp" "k s3 g = Some m"
      by (elim digits_E)
    have "s = (ip @ ''.'' @ fp) @ s3" using ip s2 fp by simp
    then show ?thesis using is_FLOAT_point[OF ip(2) ne fp(2)] fp(3) by (rule that)
  next
    case nodot
    then obtain fp s3 where fp: "s1 = fp @ s3" "list_all is_digit fp" "k s3 g = Some m"
      by (elim digits_E)
    have "s = (ip @ fp) @ s3" using ip fp by simp
    moreover have "is_FLOAT (ip @ fp)"
      using ip(2) fp(2) ne by (intro is_FLOAT_digits) auto
    ultimately show ?thesis using fp(3) by (rule that)
  qed
qed

lemma float_I:
  assumes "is_FLOAT w" "float_stop s'" "k s' g = Some m"
  shows "rmatch FLOAT_re (w @ s') g k = Some m"
proof -
  from assms(2) have stop: "digits_stop s'" and nodot: "lit_match ''.'' s' = None"
    by (simp_all add: float_stop_def digits_stop_def)
  have tail: "rmatch (Digits 0) (fp @ s') g (\<lambda>s3 g3. rmatch (Cat []) s3 g3 k) = Some m"
    if "list_all is_digit fp" for fp
    using that stop assms(3) by (intro digits_I) simp_all
  from assms(1) show ?thesis
  proof (cases rule: is_FLOAT_cases)
    case int
    have "rmatch (Opt (Lit ''.'')) s' g
            (\<lambda>s2 g2. rmatch (Digits 0) s2 g2 (\<lambda>s3 g3. rmatch (Cat []) s3 g3 k)) = Some m"
      using tail[of "[]"] nodot by simp
    with int stop show ?thesis
      unfolding FLOAT_re_def
      by (simp only: rmatch.simps(5)) (rule digits_I; simp add: is_INT_def Suc_le_eq)
  next
    case (point ip fp)
    have "rmatch (Opt (Lit ''.'')) (''.'' @ fp @ s') g
            (\<lambda>s2 g2. rmatch (Digits 0) s2 g2 (\<lambda>s3 g3. rmatch (Cat []) s3 g3 k)) = Some m"
      using tail[OF point(3)] by simp
    moreover have "digits_stop (''.'' @ fp @ s')" by (simp add: digits_stop_def)
    ultimately have "rmatch (Digits 1) (ip @ ''.'' @ fp @ s') g
       (\<lambda>s1 g1. rmatch (Opt (Lit ''.'')) s1 g1
            (\<lambda>s2 g2. rmatch (Digits 0) s2 g2 (\<lambda>s3 g3. rmatch (Cat []) s3 g3 k))) = Some m"
      using point(2) by (intro digits_I) (simp_all add: is_INT_def Suc_le_eq)
    then show ?thesis
      by (simp add: FLOAT_re_def point(1))
  qed
qed

subsection \<open>Groups, options and the end of the text\<close>

lemma group_int_E:
  assumes "rmatch (Group n INT_re) s g k = Some m"
  obtains w s' where "s = w @ s'" "is_INT w" "k s' (g(n \<mapsto> w)) = Some m"
proof -
  from assms have "rmatch INT_re s g (\<lambda>s' g'. k s' (g'(n \<mapsto> take (length s - length s') s))) = Some m"
    by simp
  then obtain w s' where "s = w @ s'" "is_INT w"
      "k s' (g(n \<mapsto> take (length s - length s') s)) = Some m"
    by (elim int_E)
  then show ?thesis using that[of w s'] by simp
qed

lemma group_float_E:
  assumes "rmatch (Group n FLOAT_re) s g k = Some m"
  obtains w s' where "s = w @ s'" "is_FLOAT w" "k s' (g(n \<mapsto> w)) = Some m"
proof -
  from assms have "rmatch FLOAT_re s g (\<lambda>s' g'. k s' (g'(n \<mapsto> take (length s - length s') s))) = Some m"
    by simp
  then obtain w s' where "s = w @ s'" "is_FLOAT w"
      "k s' (g(n \<mapsto> take (length s - length s') s)) = Some m"
    by (elim float_E)
  then show ?thesis using that[of w s'] by simp
qed

lemma group_int_I:
  "is_INT w \<Longrightarrow> digits_stop s' \<Longrightarrow> k s' (g(n \<mapsto> w)) = Some m \<Longrightarrow>
   rmatch (Group n INT_re) (w @ s') g k = Some m"
  by (simp only: rmatch.simps(6)) (rule int_I; simp)

lemma group_float_I:
  "is_FLOAT w \<Longrightarrow> float_stop s' \<Longrightarrow> k s' (g(n \<mapsto> w)) = Some m \<Longrightarrow>
   rmatch (Group n FLOAT_re) (w @ s') g k = Some m"
  by (simp only: rmatch.simps(6)) (rule float_I; simp)

lemma opt_E:
  assumes "rmatch (Opt r) s g k = Some m"
  obtains (taken) "rmatch r s g k = Some m" | (skipped) "k s g = Some m"
  using assms by (auto split: option.splits)

lemma opt_taken_I: "rmatch r s g k = Some m \<Longrightarrow> rmatch (Opt r) s g k = Some m"
  by simp

lemma opt_skipped_I: "rmatch r s g k = None \<Longrightarrow> k s g = Some m \<Longrightarrow> rmatch (Opt r) s g k = Some m"
  by simp

lemma end_E:
  assumes "rmatch End_Z s g k = Some m"
  obtains "s = []" "k [] g = Some m"
  using assms by (auto split: if_splits)

lemma matched_E:
  assumes "matched s g = Some m"
  obtains "m = g"
  using assms by (simp add: matched_def)

subsection \<open>Every match of the pattern is a text of the grammar\<close>

lemma rtt_block_E:
  assumes "rmatch (Opt (Cat [Lit ''rtt min/avg/max/mdev = '',
                Group ''min'' FLOAT_re, Lit ''/'', Group ''avg'' FLOAT_re, Lit ''/'',
                Group ''max'' FLOAT_re, Lit ''/'', Group ''mdev'' FLOAT_re, Lit '' ms''])) s g k = Some m"
  obtains rtt s' where "s = rtt_text rtt @ s'" "rtt_ok rtt" "k s' (rtt_groups rtt g) = Some m"
  using assms
proof (cases rule: opt_E)
  case taken
  then obtain a b c d s' where
    "s = ''rtt min/avg/max/mdev = '' @ a @ ''/'' @ b @ ''/'' @ c @ ''/'' @ d @ '' ms'' @ s'"
    "is_FLOAT a" "is_FLOAT b" "is_FLOAT c" "is_FLOAT d"
    "k s' (g(''min'' \<mapsto> a, ''avg'' \<mapsto> b, ''max'' \<mapsto> c, ''mdev'' \<mapsto> d)) = Some m"
    unfolding rmatch.simps(4,5)
    by (elim lit_E group_float_E) simp
  then show ?thesis
    using that[of "Some (a, b, c, d)" s'] by (simp add: rtt_text_def rtt_ok_def rtt_groups_def)
next
  case skipped
  then show ?thesis
    using that[of None s] by (simp add: rtt_text_def rtt_ok_def rtt_groups_def)
qed

lemma errors_block_E:
  assumes "rmatch (Opt (Cat [Lit ''+'', INT_re, Lit '' errors, ''])) s g k = Some m"
  obtains errs s' where "s = errors_text errs @ s'" "errors_ok errs" "k s' g = Some m"
  using assms
proof (cases rule: opt_E)
  case taken
  then obtain n s' where "s = ''+'' @ n @ '' errors, '' @ s'" "is_INT n" "k s' g = Some m"
    unfolding rmatch.simps(4,5)
    by (elim lit_E int_E) simp
  then show ?thesis
    using that[of "Some n" s'] by (simp add: errors_text_def errors_ok_def)
next
  case skipped
  then show ?thesis
    using that[of None s] by (simp add: errors_text_def errors_ok_def)
qed

lemma ping_match_sound:
  assumes "rmatch PING_RESULTS_REGEX s Map.empty matched = Some m"
  shows "\<exists>t r errs loss tm rtt. fields_ok t r errs loss tm rtt
           \<and> s = ping_text t r errs loss tm rtt \<and> m = ping_groups t r loss rtt"
proof -
  from assms obtain t r errs loss tm rtt where
    "s = t @ '' packets transmitted, '' @ r @ '' received, '' @ errors_text errs @
     loss @ ''% packet loss, time '' @ tm @ ''ms\<newline>'' @ rtt_text rtt @ ''\<newline>''"
    "is_INT t" "is_INT r" "errors_ok errs" "is_FLOAT loss" "is_FLOAT tm" "rtt_ok rtt"
    "m = rtt_groups rtt [''transmitted'' \<mapsto> t, ''received'' \<mapsto> r, ''packet_loss'' \<mapsto> loss]"
    unfolding PING_RESULTS_REGEX_def rmatch.simps(4,5)
    by (elim group_int_E lit_E errors_block_E group_float_E float_E rtt_block_E end_E matched_E) simp
  then have "fields_ok t r errs loss tm rtt \<and> s = ping_text t r errs loss tm rtt
      \<and> m = ping_groups t r loss rtt"
    by (simp add: fields_ok_def ping_text_def ping_groups_def)
  then show ?thesis by blast
qed

subsection \<open>Every text of the grammar is matched, with its fields in the groups\<close>

lemma float_stop_simps [simp]:
  "float_stop []"
  "float_stop (c # s) = (\<not> is_digit c \<and> c \<noteq> CHR ''.'')"
  by (auto simp: float_stop_def)

lemma digits_stop_simps [simp]:
  "digits_stop []"
  "digits_stop (c # s) = (\<not> is_digit c)"
  by (auto simp: digits_stop_def)

lemma is_FLOAT_Cons: "is_FLOAT w \<Longrightarrow> \<exists>d w'. w = d # w' \<and> is_digit d"
  by (cases w) (auto simp: is_FLOAT_def Let_def split: if_splits)

lemma rtt_block_I:
  assumes "rtt_ok rtt" "lit_match ''rtt min/avg/max/mdev = '' s' = None"
      "k s' (rtt_groups rtt g) = Some m"
  shows "rmatch (Opt (Cat [Lit ''rtt min/avg/max/mdev = '',
                Group ''min'' FLOAT_re, Lit ''/'', Group ''avg'' FLOAT_re, Lit ''/'',
                Group ''max'' FLOAT_re, Lit ''/'', Group ''mdev'' FLOAT_re, Lit '' ms'']))
           (rtt_text rtt @ s') g k = Some m"
proof (cases rtt)
  case None
  with assms show ?thesis
    by (simp add: rtt_text_def rtt_groups_def)
next
  case (Some abcd)
  obtain a b c d where abcd: "abcd = (a, b, c, d)" by (cases abcd)
  from assms(1) have f: "is_FLOAT a" "is_FLOAT b" "is_FLOAT c" "is_FLOAT d"
    by (simp_all add: rtt_ok_def Some abcd)
  from assms(3) have k: "k s' (g(''min'' \<mapsto> a, ''avg'' \<mapsto> b, ''max'' \<mapsto> c, ''mdev'' \<mapsto> d)) = Some m"
    by (simp add: rtt_groups_def Some abcd)
  have "rmatch (Cat [Lit ''rtt min/avg/max/mdev = '',
                Group ''min'' FLOAT_re, Lit ''/'', Group ''avg'' FLOAT_re, Lit ''/'',
                Group ''max'' FLOAT_re, Lit ''/'', Group ''mdev'' FLOAT_re, Lit '' ms''])
           (''rtt min/avg/max/mdev = '' @ a @ ''/'' @ b @ ''/'' @ c @ ''/'' @ d @ '' ms'' @ s') g k = Some m"
    unfolding rmatch.simps(4,5)
    by (intro lit_I group_float_I f k) (simp_all add: is_digit_def)
  then show ?thesis
    by (simp only: rtt_text_def Some abcd option.case prod.case append_assoc
        opt_taken_I)
qed

lemma errors_block_I:
  assumes "errors_ok errs" "lit_match ''+'' s' = None" "k s' g = Some m"
  shows "rmatch (Opt (Cat [Lit ''+'', INT_re, Lit '' errors, ''])) (errors_text errs @ s') g k = Some m"
proof (cases errs)
  case None
  with assms show ?thesis
    by (simp add: errors_text_def)
next
  case (Some n)
  from assms(1) have n: "is_INT n" by (simp add: errors_ok_def Some)
  have "rmatch (Cat [Lit ''+'', INT_re, Lit '' errors, '']) (''+'' @ n @ '' errors, '' @ s') g k = Some m"
    unfolding rmatch.simps(4,5)
    by (intro lit_I int_I n assms(3)) (simp_all add: is_digit_def)
  then show ?thesis
    by (simp only: errors_text_def Some option.case append_assoc opt_taken_I)
qed

lemma ping_match_greedy:
  assumes "fields_ok t r errs loss tm rtt"
  shows "rmatch PING_RESULTS_REGEX (ping_text t r errs loss tm rtt) Map.empty matched
         = Some (ping_groups t r loss rtt)"
proof -
  from assms have f: "is_INT t" "is_INT r" "errors_ok errs" "is_FLOAT loss" "is_FLOAT tm" "rtt_ok rtt"
    by (simp_all add: fields_ok_def)
  from is_FLOAT_Cons[OF f(4)] have plus: "lit_match ''+'' (loss @ s') = None" for s'
    by (auto simp: is_digit_def)
  have fin: "matched [] (ping_groups t r loss rtt) = Some (ping_groups t r loss rtt)"
    by (simp add: matched_def)
  show ?thesis
    unfolding PING_RESULTS_REGEX_def ping_text_def ping_groups_def rmatch.simps(4,5)
    apply (intro group_int_I lit_I errors_block_I group_float_I float_I rtt_block_I f plus)
          apply (simp_all add: is_digit_def matched_def)
    done
qed

subsection \<open>search\<close>

lemma search_here: "rmatch r s Map.empty matched = Some m \<Longrightarrow> search r s = Some m"
  by (cases s) simp_all

lemma search_sound:
  "search r s = Some m \<Longrightarrow> \<exists>pre g. s = pre @ g \<and> rmatch r g Map.empty matched = Some m"
proof (induction s)
  case Nil
  then show ?case by simp
next
  case (Cons c s)
  show ?case
  proof (cases "rmatch r (c # s) Map.empty matched")
    case None
    with Cons.prems have "search r s = Some m" by simp
    from Cons.IH[OF this] obtain pre g where "s = pre @ g" "rmatch r g Map.empty matched = Some m"
      by blast
    then have "c # s = (c # pre) @ g \<and> rmatch r g Map.empty matched = Some m" by simp
    then show ?thesis by blast
  next
    case (Some a)
    with Cons.prems have "c # s = [] @ (c # s) \<and> rmatch r (c # s) Map.empty matched = Some m"
      by simp
    then show ?thesis by blast
  qed
qed

lemma search_complete:
  "rmatch r g Map.empty matched = Some m \<Longrightarrow> \<exists>m'. search r (pre @ g) = Some m'"
proof (induction pre)
  case Nil
  then show ?case by (simp add: search_here)
next
  case (Cons c pre)
  then show ?case by (cases "rmatch r (c # pre @ g) Map.empty matched") auto
qed

lemma search_leftmost:
  "(\<And>n. n < length pre \<Longrightarrow> rmatch r (drop n pre @ g) Map.empty matched = None) \<Longrightarrow>
   search r (pre @ g) = search r g"
proof (induction pre)
  case Nil
  then show ?case by simp
next
  case (Cons c pre)
  from Cons.prems[of 0] have "rmatch r (c # pre @ g) Map.empty matched = None" by simp
  moreover have "search r (pre @ g) = search r g"
  proof (rule Cons.IH)
    fix n assume "n < length pre"
    with Cons.prems[of "Suc n"] show "rmatch r (drop n pre @ g) Map.empty matched = None" by simp
  qed
  ultimately show ?case by simp
qed

subsection \<open>A text of the grammar has two newlines\<close>

lemma not_digit_newline [simp]: "\<not> is_digit CHR 0x0A"
  by (simp add: is_digit_def)

lemma count_newline_digits: "list_all is_digit w \<Longrightarrow> count_list w CHR 0x0A = 0"
proof -
  assume "list_all is_digit w"
  then have "CHR 0x0A \<notin> set w"
    using not_digit_newline by (auto simp: list_all_iff)
  then show ?thesis by (rule count_notin)
qed

lemma count_newline_INT: "is_INT w \<Longrightarrow> count_list w CHR 0x0A = 0"
  by (simp add: is_INT_def count_newline_digits)

lemma count_newline_FLOAT: "is_FLOAT w \<Longrightarrow> count_list w CHR 0x0A = 0"
  by (erule is_FLOAT_cases) (simp_all add: count_newline_INT count_newline_digits)

lemma count_newline_ping_text:
  assumes "fields_ok t r errs loss tm rtt"
  shows "count_list (ping_text t r errs loss tm rtt) CHR 0x0A = 2"
proof -
  from assms have "count_list (errors_text errs) CHR 0x0A = 0"
    by (cases errs) (simp_all add: fields_ok_def errors_ok_def errors_text_def count_newline_INT)
  moreover from assms have "count_list (rtt_text rtt) CHR 0x0A = 0"
    by (cases rtt) (auto simp: fields_ok_def rtt_ok_def rtt_text_def count_newline_FLOAT)
  ultimately show ?thesis
    using assms by (simp add: ping_text_def fields_ok_def count_newline_INT count_newline_FLOAT)
qed

lemma count_newline_suffix:
  assumes "pre \<noteq> []" "last pre = CHR 0x0A" "n < length pre"
  shows "0 < count_list (drop n pre) CHR 0x0A"
proof -
  from assms have "drop n pre \<noteq> []" "last (drop n pre) = CHR 0x0A" by simp_all
  then have "CHR 0x0A \<in> set (drop n pre)" by (metis last_in_set)
  then have "count_list (drop n pre) CHR 0x0A \<noteq> 0"
    by (simp only: count_list_0_iff not_not)
  then show ?thesis by simp
qed

lemma no_earlier_match:
  assumes "fields_ok t r errs loss tm rtt" "pre = [] \<or> last pre = CHR 0x0A" "n < length pre"
  shows "rmatch PING_RESULTS_REGEX (drop n pre @ ping_text t r errs loss tm rtt) Map.empty matched = None"
proof (rule ccontr)
  assume "rmatch PING_RESULTS_REGEX (drop n pre @ ping_text t r errs loss tm rtt) Map.empty matched \<noteq> None"
  then obtain m where "rmatch PING_RESULTS_REGEX (drop n pre @ ping_text t r errs loss tm rtt) Map.empty matched = Some m"
    by auto
  from ping_match_sound[OF this] obtain t' r' errs' loss' tm' rtt' where
    ok: "fields_ok t' r' errs' loss' tm' rtt'"
    and eq: "drop n pre @ ping_text t r errs loss tm rtt = ping_text t' r' errs' loss' tm' rtt'"
    by blast
  from assms(2,3) have "0 < count_list (drop n pre) CHR 0x0A"
    by (intro count_newline_suffix) auto
  moreover have "count_list (drop n pre @ ping_text t r errs loss tm rtt) CHR 0x0A = 2"
    unfolding eq by (rule count_newline_ping_text[OF ok])
  ultimately show False
    using count_newline_ping_text[OF assms(1)] by simp
qed

lemma search_ping_text:
  assumes "fields_ok t r errs loss tm rtt" "pre = [] \<or> last pre = CHR 0x0A"
  shows "search PING_RESULTS_REGEX (pre @ ping_text t r errs loss tm rtt) = Some (ping_groups t r loss rtt)"
proof -
  have "search PING_RESULTS_REGEX (pre @ ping_text t r errs loss tm rtt)
      = search PING_RESULTS_REGEX (ping_text t r errs loss tm rtt)"
    by (rule search_leftmost) (rule no_earlier_match[OF assms])
  then show ?thesis
    by (simp add: search_here[OF ping_match_greedy[OF assms(1)]])
qed



section \<open>Properties of PingResults\<close>

lemma record_of_groups:
  assumes "fields_ok t r errs loss tm rtt"
  shows "ebind (py_int (ping_groups t r loss rtt ''transmitted'')) (\<lambda>tv.
          ebind (py_int (ping_groups t r loss rtt ''received'')) (\<lambda>rv.
          ebind (py_float (ping_groups t r loss rtt ''packet_loss'')) (\<lambda>pl.
          ebind (float_or_none (ping_groups t r loss rtt ''min'')) (\<lambda>mn.
          ebind (float_or_none (ping_groups t r loss rtt ''avg'')) (\<lambda>av.
          ebind (float_or_none (ping_groups t r loss rtt ''max'')) (\<lambda>mx.
          ebind (float_or_none (ping_groups t r loss rtt ''mdev'')) (\<lambda>md.
          Inr \<lparr>transmitted = tv, received = rv, packet_loss = pl / 100,
               min_rtt = mn, avg = av, max_rtt = mx, mdev = md\<rparr>)))))))
        = Inr (ping_record t r loss rtt)"
proof (cases rtt)
  case None
  with assms show ?thesis
    by (simp add: fields_ok_def ping_groups_def rtt_groups_def py_int_def py_float_def
        float_or_none_def ebind_def ping_record_def)
next
  case (Some abcd)
  obtain a b c d where abcd: "abcd = (a, b, c, d)" by (cases abcd)
  with Some assms show ?thesis
    by (simp add: fields_ok_def rtt_ok_def ping_groups_def rtt_groups_def py_int_def py_float_def
        float_or_none_def ebind_def ping_record_def)
qed

lemma PingResults_init_groups:
  assumes "search PING_RESULTS_REGEX output = Some (ping_groups t r loss rtt)"
      "fields_ok t r errs loss tm rtt"
  shows "PingResults_init output = Inr (ping_record t r loss rtt)"
  unfolding PingResults_init_def assms(1) option.case
  by (rule record_of_groups[OF assms(2)])

lemma PingResults_init_ping_text:
  assumes "fields_ok t r errs loss tm rtt" "pre = [] \<or> last pre = CHR 0x0A"
  shows "PingResults_init (pre @ ping_text t r errs loss tm rtt) = Inr (ping_record t r loss rtt)"
  by (rule PingResults_init_groups[OF search_ping_text[OF assms] assms(1)])

lemma PingResults_init_cases:
  obtains (no_match) "search PING_RESULTS_REGEX output = None"
      "PingResults_init output = Inl (RuntimeError (''\<newline>'' @ output) None)"
      "\<not> (\<exists>pre t r errs loss tm rtt. fields_ok t r errs loss tm rtt
              \<and> output = pre @ ping_text t r errs loss tm rtt)"
  | (match) pre t r errs loss tm rtt where
      "fields_ok t r errs loss tm rtt" "output = pre @ ping_text t r errs loss tm rtt"
      "PingResults_init output = Inr (ping_record t r loss rtt)"
proof (cases "search PING_RESULTS_REGEX output")
  case None
  have "\<not> (\<exists>pre t r errs loss tm rtt. fields_ok t r errs loss tm rtt
              \<and> output = pre @ ping_text t r errs loss tm rtt)"
  proof
    assume "\<exists>pre t r errs loss tm rtt. fields_ok t r errs loss tm rtt
              \<and> output = pre @ ping_text t r errs loss tm rtt"
    then obtain pre t r errs loss tm rtt where "fields_ok t r errs loss tm rtt"
      "output = pre @ ping_text t r errs loss tm rtt" by blast
    with search_complete[OF ping_match_greedy, of t r errs loss tm rtt pre] None
    show False by simp
  qed
  with None show ?thesis
    by (intro no_match) (simp_all add: PingResults_init_def)
next
  case (Some m)
  from search_sound[OF this] obtain pre g where g: "output = pre @ g"
    "rmatch PING_RESULTS_REGEX g Map.empty matched = Some m" by blast
  from ping_match_sound[OF g(2)] obtain t r errs loss tm rtt where
    f: "fields_ok t r errs loss tm rtt" "g = ping_text t r errs loss tm rtt"
       "m = ping_groups t r loss rtt" by blast
  from Some f(3) have "search PING_RESULTS_REGEX output = Some (ping_groups t r loss rtt)" by simp
  from PingResults_init_groups[OF this f(1)] f g(1) show ?thesis
    by (intro match) simp_all
qed

lemma float_val_nonneg: "0 \<le> float_val w"
  by (simp add: float_val_def Let_def)

lemma ping_output_reply_eq:
  "ping_output_reply = ping_header @ ping_text ''1'' ''1'' None ''0'' ''0''
       (Some (''11.632'', ''11.632'', ''11.632'', ''0.000''))"
  by (simp add: ping_output_reply_def ping_header_def ping_text_def errors_text_def rtt_text_def)


lemma example_fields:
  "is_INT ''1''" "is_INT ''0''" "is_INT ''5''" "is_FLOAT ''0''" "is_FLOAT ''100''" "is_FLOAT ''200''"
  "is_FLOAT ''11.632''" "is_FLOAT ''0.000''" "errors_ok None" "errors_ok (Some ''1'')"
  "last ping_header = CHR 0x0A"
  by (simp_all add: is_INT_def is_FLOAT_def is_digit_def errors_ok_def ping_header_def)

lemma example_values:
  "decimal ''1'' = 1" "decimal ''0'' = 0" "decimal ''5'' = 5"
  "float_val ''0'' = 0" "float_val ''100'' = 100" "float_val ''200'' = 200"
  "float_val ''11.632'' = 11.632" "float_val ''0.000'' = 0"
  by (simp_all add: decimal_def float_val_def is_digit_def digit_val_def)









lemma PingResults_init_inconsistent:
  "PingResults_init ''1 packets transmitted, 5 received, 200% packet loss, time 0ms\<newline>\<newline>''
   = Inr \<lparr>transmitted = 1, received = 5, packet_loss = 2,
          min_rtt = None, avg = None, max_rtt = None, mdev = None\<rparr>"
proof -
  have "fields_ok ''1'' ''5'' None ''200'' ''0'' None"
    by (simp add: fields_ok_def rtt_ok_def example_fields)
  from PingResults_init_ping_text[OF this, of "[]"] show ?thesis
    by (simp add: ping_text_def errors_text_def rtt_text_def ping_record_def example_values)
qed

lemma PingResults_init_reply:
  "PingResults_init ping_output_reply
     = Inr \<lparr>transmitted = 1, received = 1, packet_loss = 0,
            min_rtt = Some 11.632, avg = Some 11.632, max_rtt = Some 11.632, mdev = Some 0\<rparr>"
proof -
  have "fields_ok ''1'' ''1'' None ''0'' ''0'' (Some (''11.632'', ''11.632'', ''11.632'', ''0.000''))"
    by (simp add: fields_ok_def rtt_ok_def example_fields)
  from PingResults_init_ping_text[OF this, of ping_header] show ?thesis
    by (simp add: ping_output_reply_eq ping_record_def example_fields example_values)
qed

text \<open>
  C8, as the claim states it, fails: the parser checks the shape of the text, not the
  numbers. The text below is accepted with 5 packets received of 1 transmitted, a loss
  of 200 percent, and no latency although packets were received.
\<close>

theorem parser_accepts_inconsistent_counts:
  "PingResults_init ''1 packets transmitted, 5 received, 200% packet loss, time 0ms\<newline>\<newline>''
     = Inr \<lparr>transmitted = 1, received = 5, packet_loss = 2,
            min_rtt = None, avg = None, max_rtt = None, mdev = None\<rparr>
   \<and> \<not> (received \<lparr>transmitted = 1, received = 5, packet_loss = 2,
            min_rtt = None, avg = None, max_rtt = None, mdev = None\<rparr>
         \<le> transmitted \<lparr>transmitted = 1, received = 5, packet_loss = 2,
            min_rtt = None, avg = None, max_rtt = None, mdev = None\<rparr>)
   \<and> \<not> (packet_loss \<lparr>transmitted = 1, received = 5, packet_loss = 2,
            min_rtt = None, avg = None, max_rtt = None, mdev = None\<rparr> \<le> 1)"
  by (simp add: PingResults_init_inconsistent)

text \<open>
  C8, amended. Every record that \<^verbatim>\<open>PingResults\<close> builds has non-negative
  \<open>transmitted\<close>, \<open>received\<close> and \<open>packet_loss\<close>, and comes from a text ending with
  the grammar: its four latency fields are all \<open>None\<close> when that text has no RTT line,
  and all present and non-negative when it has one.
\<close>

theorem parser_result_invariants:
  assumes "PingResults_init output = Inr res"
  shows "0 \<le> transmitted res \<and> 0 \<le> received res \<and> 0 \<le> packet_loss res
       \<and> (\<exists>pre t r errs loss tm rtt.
             fields_ok t r errs loss tm rtt \<and> output = pre @ ping_text t r errs loss tm rtt
             \<and> (case rtt of
                  None \<Rightarrow> min_rtt res = None \<and> avg res = None \<and> max_rtt res = None \<and> mdev res = None
                | Some (a, b, c, d) \<Rightarrow>
                    min_rtt res = Some (float_val a) \<and> avg res = Some (float_val b)
                    \<and> max_rtt res = Some (float_val c) \<and> mdev res = Some (float_val d)
                    \<and> 0 \<le> float_val a \<and> 0 \<le> float_val b \<and> 0 \<le> float_val c \<and> 0 \<le> float_val d))"
proof (cases rule: PingResults_init_cases[of "output"])
  case no_match
  with assms show ?thesis by simp
next
  case (match pre t r errs loss tm rtt)
  with assms have res: "res = ping_record t r loss rtt" by simp
  have "case rtt of
          None \<Rightarrow> min_rtt res = None \<and> avg res = None \<and> max_rtt res = None \<and> mdev res = None
        | Some (a, b, c, d) \<Rightarrow>
            min_rtt res = Some (float_val a) \<and> avg res = Some (float_val b)
            \<and> max_rtt res = Some (float_val c) \<and> mdev res = Some (float_val d)
            \<and> 0 \<le> float_val a \<and> 0 \<le> float_val b \<and> 0 \<le> float_val c \<and> 0 \<le> float_val d"
    by (auto simp: res ping_record_def float_val_nonneg split: option.splits)
  with match(1,2) have "\<exists>pre t r errs loss tm rtt.
             fields_ok t r errs loss tm rtt \<and> output = pre @ ping_text t r errs loss tm rtt
             \<and> (case rtt of
                  None \<Rightarrow> min_rtt res = None \<and> avg res = None \<and> max_rtt res = None \<and> mdev res = None
                | Some (a, b, c, d) \<Rightarrow>
                    min_rtt res = Some (float_val a) \<and> avg res = Some (float_val b)
                    \<and> max_rtt res = Some (float_val c) \<and> mdev res = Some (float_val d)
                    \<and> 0 \<le> float_val a \<and> 0 \<le> float_val b \<and> 0 \<le> float_val c \<and> 0 \<le> float_val d)"
    by blast
  moreover have "0 \<le> transmitted res \<and> 0 \<le> received res \<and> 0 \<le> packet_loss res"
    by (simp add: res ping_record_def float_val_nonneg)
  ultimately show ?thesis by blast
qed

theorem parser_result_invariants_witness:
  "PingResults_init ping_output_reply
     = Inr \<lparr>transmitted = 1, received = 1, packet_loss = 0,
            min_rtt = Some 11.632, avg = Some 11.632, max_rtt = Some 11.632, mdev = Some 0\<rparr>
   \<and> (0::int) \<le> 1 \<and> (0::real) \<le> 0 \<and> (0::real) \<le> 11.632"
  using parser_result_invariants[OF PingResults_init_reply] PingResults_init_reply
  by simp

section \<open>Properties of ping, dig and get_results\<close>

text \<open>
  C3. The command that \<^verbatim>\<open>ping\<close> runs for the count that \<^verbatim>\<open>main\<close> passes
  (\<open>best_of\<close>, which is 3) asks the utility for one packet: the count is not in it.
\<close>

theorem ping_count_not_passed:
  "ping_cmd ''142.250.80.46'' best_of = [''ping'', ''-qc1'', ''142.250.80.46''] \<and> best_of = 3"
  by (simp add: ping_cmd_def best_of_def)

lemma dig_env_ping_cancelled:
  "dig env_ping_cancelled ''example.com'' (Some ''1.1.1.1'') = Inr (Some ''93.184.216.34'')"
  by (simp add: dig_def dig_cmd_def env_ping_cancelled_def py_strip_def py_split_def is_space_def)

lemma dig_env_ping_unreachable:
  "dig env_ping_unreachable ''example.com'' (Some ''1.1.1.1'') = Inr (Some ''93.184.216.34'')"
  by (simp add: dig_def dig_cmd_def env_ping_unreachable_def py_strip_def py_split_def is_space_def)

lemma ping_env_ping_unreachable:
  "ping env_ping_unreachable ''93.184.216.34'' 3
   = Inl (RuntimeError ''ping: connect: Network is unreachable''
            (Some (RuntimeError ''\<newline>'' None)))"
  by (simp add: ping_def ping_cmd_def env_ping_unreachable_def PingResults_init_def
      PING_RESULTS_REGEX_def INT_re_def)

text \<open>
  C9. A cancellation raised at an await of the resolve stage, or at an await of the probe
  stage after \<^verbatim>\<open>dig\<close> returned an address, leaves \<^verbatim>\<open>get_results\<close> as the same
  \<^verbatim>\<open>CancelledError\<close>: it is not wrapped in a \<^verbatim>\<open>RuntimeError\<close> and no value is returned.
\<close>

theorem cancellation_propagates:
  assumes "e (dig_cmd domain server) = Inl CancelledError
           \<or> (dig e domain server = Inr (Some addr) \<and> e (ping_cmd addr c) = Inl CancelledError)"
  shows "get_results e domain server provider c = Inl CancelledError"
  using assms
  by (auto simp: get_results_def dig_def ping_def reraise_def)

theorem cancellation_propagates_witness:
  "env_cancelled (dig_cmd ''example.com'' (Some ''1.1.1.1'')) = Inl CancelledError
   \<and> get_results env_cancelled ''example.com'' (Some ''1.1.1.1'') (Some ''cloudflare'') 3
       = Inl CancelledError
   \<and> dig env_ping_cancelled ''example.com'' (Some ''1.1.1.1'') = Inr (Some ''93.184.216.34'')
   \<and> env_ping_cancelled (ping_cmd ''93.184.216.34'' 3) = Inl CancelledError
   \<and> get_results env_ping_cancelled ''example.com'' (Some ''1.1.1.1'') (Some ''cloudflare'') 3
       = Inl CancelledError"
proof -
  have a: "env_cancelled (dig_cmd ''example.com'' (Some ''1.1.1.1'')) = Inl CancelledError"
    by (simp add: env_cancelled_def)
  have b: "env_ping_cancelled (ping_cmd ''93.184.216.34'' 3) = Inl CancelledError"
    by (simp add: env_ping_cancelled_def ping_cmd_def)
  from cancellation_propagates[of env_cancelled "''example.com''" "Some ''1.1.1.1''" _ _ "Some ''cloudflare''", OF disjI1, OF a]
       cancellation_propagates[of env_ping_cancelled "''example.com''" "Some ''1.1.1.1''" "''93.184.216.34''" 3 "Some ''cloudflare''",
          OF disjI2, OF conjI, OF dig_env_ping_cancelled b]
       a b dig_env_ping_cancelled
  show ?thesis by simp
qed

text \<open>
  C1, as the claim states it, fails: when \<^verbatim>\<open>dig\<close> exits with a non-zero status,
  \<^verbatim>\<open>get_results\<close> returns no value to its caller; it raises.
\<close>

theorem dig_failure_is_raised:
  "get_results env_dig_fails ''example.com'' (Some ''1.1.1.1'') (Some ''cloudflare'') 3
   = Inl (RuntimeError ''Dig error: example.com from cloudflare (1.1.1.1)''
           (Some (RuntimeError '';; connection timed out; no servers could be reached'' None)))"
  by (simp add: get_results_def dig_def env_dig_fails_def reraise_def dig_error_def str_opt_def)

text \<open>
  C1, amended. When the resolve stage or the probe stage fails with an exception other
  than a cancellation, \<^verbatim>\<open>get_results\<close> raises a \<^verbatim>\<open>RuntimeError\<close> whose message names
  the stage and the domain, provider and server (and the address, for the probe stage)
  and whose cause is the exception of the stage.
\<close>

theorem expected_failures_are_reraised:
  assumes "is_Exception x"
  shows "(dig e domain server = Inl x \<longrightarrow>
            get_results e domain server provider c
              = Inl (RuntimeError (dig_error domain provider server) (Some x)))
       \<and> (dig e domain server = Inr (Some addr) \<and> ping e addr c = Inl x \<longrightarrow>
            get_results e domain server provider c
              = Inl (RuntimeError (ping_error domain addr provider server) (Some x)))"
proof -
  from assms have "x \<noteq> CancelledError" by auto
  with assms show ?thesis by (simp add: get_results_def reraise_def)
qed

theorem expected_failures_are_reraised_witness:
  "is_Exception (RuntimeError ''ping: connect: Network is unreachable''
            (Some (RuntimeError ''\<newline>'' None)))
   \<and> dig env_ping_unreachable ''example.com'' (Some ''1.1.1.1'') = Inr (Some ''93.184.216.34'')
   \<and> ping env_ping_unreachable ''93.184.216.34'' 3
       = Inl (RuntimeError ''ping: connect: Network is unreachable''
            (Some (RuntimeError ''\<newline>'' None)))
   \<and> get_results env_ping_unreachable ''example.com'' (Some ''1.1.1.1'') (Some ''cloudflare'') 3
       = Inl (RuntimeError (ping_error ''example.com'' ''93.184.216.34'' (Some ''cloudflare'') (Some ''1.1.1.1''))
               (Some (RuntimeError ''ping: connect: Network is unreachable''
                  (Some (RuntimeError ''\<newline>'' None)))))"
proof -
  have x: "is_Exception (RuntimeError ''ping: connect: Network is unreachable''
            (Some (RuntimeError ''\<newline>'' None)))" by simp
  from expected_failures_are_reraised[OF x, of env_ping_unreachable "''example.com''" "Some ''1.1.1.1''" "Some ''cloudflare''" 3 "''93.184.216.34''"]
    dig_env_ping_unreachable ping_env_ping_unreachable x
  show ?thesis by simp
qed

section \<open>Properties of the server assignment\<close>

lemma servers_at_snoc:
  "servers_at (done @ [(server, addrs)]) i =
   servers_at done i @ (if i < length addrs then [(server, addrs ! i)] else [])"
  by (simp add: servers_at_def)

lemma servers_at_Cons:
  "servers_at ((server, addrs) # rest) i =
   (if i < length addrs then [(server, addrs ! i)] else []) @ servers_at rest i"
  by (simp add: servers_at_def)

lemma foldr_max_acc:
  "foldr (\<lambda>(p, addrs) n. max (length addrs) n) xs m =
   max (foldr (\<lambda>(p, addrs) n. max (length (addrs :: string list)) n) (xs :: config) 0) m"
  by (induction xs) (auto simp: max.assoc)

lemma most_servers_snoc:
  "most_servers (done @ [(server, addrs)]) = max (most_servers done) (length addrs)"
  unfolding most_servers_def
  by (simp add: foldr_max_acc[of "done" "length addrs"])

lemma most_servers_Cons:
  "most_servers ((server, addrs) # rest) = max (length addrs) (most_servers rest)"
  by (simp add: most_servers_def)

lemma servers_at_beyond: "most_servers servers \<le> i \<Longrightarrow> servers_at servers i = []"
proof (induction servers)
  case Nil
  then show ?case by (simp add: servers_at_def)
next
  case (Cons pa servers)
  obtain p addrs where pa: "pa = (p, addrs)" by (cases pa)
  from Cons show ?case by (simp add: pa servers_at_Cons most_servers_Cons)
qed

lemma partial_rows_0: "partial_rows done server addrs 0 = map (servers_at done) [0..<most_servers done]"
  by (simp add: partial_rows_def)

lemma partial_rows_all:
  "partial_rows done server addrs (length addrs) =
   map (servers_at (done @ [(server, addrs)])) [0..<most_servers (done @ [(server, addrs)])]"
  by (simp add: partial_rows_def servers_at_snoc most_servers_snoc)

lemma place_partial_rows:
  assumes "k < length addrs"
  shows "place server (k, addrs ! k) (partial_rows done server addrs k) =
         Inr (partial_rows done server addrs (Suc k))"
proof (cases "most_servers done \<le> k")
  case True
  then have len: "length (partial_rows done server addrs k) = k"
    by (simp add: partial_rows_def max_def)
  have "(partial_rows done server addrs k @ [[]])[k := (partial_rows done server addrs k @ [[]]) ! k @ [(server, addrs ! k)]]
        = partial_rows done server addrs (Suc k)"
  proof (rule nth_equalityI)
    show "length ((partial_rows done server addrs k @ [[]])[k := (partial_rows done server addrs k @ [[]]) ! k @ [(server, addrs ! k)]])
        = length (partial_rows done server addrs (Suc k))"
      using True by (simp add: partial_rows_def max_def)
  next
    fix i
    assume "i < length ((partial_rows done server addrs k @ [[]])[k := (partial_rows done server addrs k @ [[]]) ! k @ [(server, addrs ! k)]])"
    then have i: "i < Suc k" using len by simp
    show "(partial_rows done server addrs k @ [[]])[k := (partial_rows done server addrs k @ [[]]) ! k @ [(server, addrs ! k)]] ! i
        = partial_rows done server addrs (Suc k) ! i"
    proof (cases "i = k")
      case True
      with \<open>most_servers done \<le> k\<close> len show ?thesis
        by (simp add: nth_append partial_rows_def max_def servers_at_beyond)
    next
      case False
      with i have ik: "i < k" by simp
      with len \<open>most_servers done \<le> k\<close> show ?thesis
        by (simp add: nth_append partial_rows_def max_def)
    qed
  qed
  with len show ?thesis by (simp add: place_def)
next
  case False
  then have k: "k < most_servers done" by simp
  then have len: "length (partial_rows done server addrs k) = most_servers done"
    by (simp add: partial_rows_def max_def)
  have "(partial_rows done server addrs k)[k := partial_rows done server addrs k ! k @ [(server, addrs ! k)]]
        = partial_rows done server addrs (Suc k)"
  proof (rule nth_equalityI)
    show "length ((partial_rows done server addrs k)[k := partial_rows done server addrs k ! k @ [(server, addrs ! k)]])
        = length (partial_rows done server addrs (Suc k))"
      using k by (simp add: partial_rows_def max_def)
  next
    fix i
    assume "i < length ((partial_rows done server addrs k)[k := partial_rows done server addrs k ! k @ [(server, addrs ! k)]])"
    then have i: "i < most_servers done" using len by simp
    show "(partial_rows done server addrs k)[k := partial_rows done server addrs k ! k @ [(server, addrs ! k)]] ! i
        = partial_rows done server addrs (Suc k) ! i"
      using i k len by (cases "i = k") (auto simp: partial_rows_def max_def)
  qed
  with len k show ?thesis by (simp add: place_def)
qed

lemma place_all_partial_rows:
  "rest = drop k addrs \<Longrightarrow> k \<le> length addrs \<Longrightarrow>
   place_all server (enumerate k rest) (partial_rows done server addrs k) =
   Inr (partial_rows done server addrs (length addrs))"
proof (induction rest arbitrary: k)
  case Nil
  then show ?case by simp
next
  case (Cons a rest)
  from Cons.prems have k: "k < length addrs"
    by (metis drop_all list.distinct(1) not_le)
  from Cons.prems have a: "a = addrs ! k" and rest: "rest = drop (Suc k) addrs"
    by (metis Cons_nth_drop_Suc k list.inject)+
  from k have "Suc k \<le> length addrs" by simp
  from Cons.IH[OF rest this] place_partial_rows[OF k, of server "done"] a
  show ?case by (simp add: ebind_def)
qed

lemma place_servers_rows:
  "place_servers items (map (servers_at done) [0..<most_servers done]) =
   Inr (map (servers_at (done @ items)) [0..<most_servers (done @ items)])"
proof (induction items arbitrary: "done")
  case Nil
  then show ?case by simp
next
  case (Cons pa items)
  obtain server addrs where pa: "pa = (server, addrs)" by (cases pa)
  have "place_all server (enumerate 0 addrs) (map (servers_at done) [0..<most_servers done])
        = Inr (map (servers_at (done @ [(server, addrs)])) [0..<most_servers (done @ [(server, addrs)])])"
    using place_all_partial_rows[of addrs 0 addrs server "done"]
    by (simp add: partial_rows_0 partial_rows_all)
  with Cons.IH[of "done @ [(server, addrs)]"] show ?case
    by (simp add: pa ebind_def)
qed

lemma server_assignment_eq: "server_assignment servers = Inr (index_major servers)"
  using place_servers_rows[of servers "[]"]
  by (simp add: server_assignment_def index_major_def ebind_def most_servers_def servers_at_def)

lemma concat_empty_tail:
  "(\<And>i. n \<le> i \<Longrightarrow> f i = []) \<Longrightarrow> n \<le> m \<Longrightarrow>
   concat (map f [0..<m]) = concat (map f [0..<n])"
proof (induction m)
  case 0
  then show ?case by simp
next
  case (Suc m)
  show ?case
  proof (cases "n = Suc m")
    case True
    then show ?thesis by simp
  next
    case False
    with Suc.prems have "n \<le> m" by simp
    with Suc show ?thesis by simp
  qed
qed

lemma mset_concat_split:
  "mset (concat (map (\<lambda>i. f i @ g i) xs)) = mset (concat (map f xs)) + mset (concat (map g xs))"
  by (induction xs) auto

lemma column_concat:
  "concat (map (\<lambda>i. if i < length addrs then [(p, addrs ! i)] else []) [0..<length addrs])
   = map (Pair p) addrs"
proof -
  have "concat (map (\<lambda>i. if i < length addrs then [(p, addrs ! i)] else []) [0..<length addrs])
      = concat (map (\<lambda>i. [(p, addrs ! i)]) [0..<length addrs])"
    by (rule arg_cong[where f = concat]) simp
  also have "\<dots> = map (\<lambda>i. (p, addrs ! i)) [0..<length addrs]"
    by (induction "[0..<length addrs]") (simp_all add: concat_map_singleton)
  also have "\<dots> = map (Pair p) (map ((!) addrs) [0..<length addrs])"
    by simp
  also have "\<dots> = map (Pair p) addrs"
    by (simp only: map_nth)
  finally show ?thesis .
qed

lemma mset_index_major: "mset (index_major servers) = mset (config_pairs servers)"
proof (induction servers)
  case Nil
  then show ?case by (simp add: index_major_def config_pairs_def most_servers_def)
next
  case (Cons pa servers)
  obtain p addrs where pa: "pa = (p, addrs)" by (cases pa)
  let ?n = "max (length addrs) (most_servers servers)"
  let ?col = "\<lambda>i. if i < length addrs then [(p, addrs ! i)] else []"
  have "servers_at ((p, addrs) # servers) = (\<lambda>i. ?col i @ servers_at servers i)"
    by (rule ext) (simp add: servers_at_Cons)
  then have "index_major (pa # servers) = concat (map (\<lambda>i. ?col i @ servers_at servers i) [0..<?n])"
    by (simp add: index_major_def pa most_servers_Cons)
  then have "mset (index_major (pa # servers)) =
      mset (concat (map ?col [0..<?n])) + mset (concat (map (servers_at servers) [0..<?n]))"
    by (simp only: mset_concat_split)
  moreover have "concat (map ?col [0..<?n]) = concat (map ?col [0..<length addrs])"
    by (rule concat_empty_tail) simp_all
  moreover have "concat (map (servers_at servers) [0..<?n]) = index_major servers"
    unfolding index_major_def
    by (rule concat_empty_tail) (simp_all add: servers_at_beyond)
  ultimately show ?case
    using Cons.IH by (simp add: column_concat config_pairs_def pa)
qed

text \<open>
  C5. The nested iteration in \<^verbatim>\<open>main\<close> never raises and builds the index-major,
  provider-order-minor list of the configuration; that list holds every
  (provider, server) pair of the configuration as often as the configuration does (once,
  when the configuration has it once); for the providers A with a1, a2 and B with b1 it
  is (A, a1), (B, b1), (A, a2).
\<close>

theorem server_assignment_index_major:
  "server_assignment servers = Inr (index_major servers)
   \<and> mset (index_major servers) = mset (config_pairs servers)
   \<and> server_assignment [(''A'', [''a1'', ''a2'']), (''B'', [''b1''])]
       = Inr [(''A'', ''a1''), (''B'', ''b1''), (''A'', ''a2'')]"
proof -
  have "index_major [(''A'', [''a1'', ''a2'']), (''B'', [''b1''])]
       = [(''A'', ''a1''), (''B'', ''b1''), (''A'', ''a2'')]"
    by (simp add: index_major_def most_servers_def servers_at_def upt_rec[of 0] upt_rec[of 1])
  then show ?thesis
    by (simp only: server_assignment_eq mset_index_major simp_thms)
qed

section \<open>Properties of the batch\<close>









section \<open>Properties of the aggregation\<close>

text \<open>
  C4. A minimum latency of \<open>0.0\<close> is present, yet the cell of the two minimums
  \<open>0.0\<close> and \<open>10.0\<close> counts one usable sample of two and has the mean 10.
\<close>

theorem cell_drops_zero_latency:
  "cell [Some 0, Some 10] = (Mean 10, Some (1, 2))"
  by (simp add: cell_def)

text \<open>
  Without a zero among the minimums the cell is what the specification describes: the
  mean of the present minimums, or no data when there is none, and the two counts when
  they differ.
\<close>

lemma cell_without_zero:
  assumes "Some 0 \<notin> set mins"
  shows "cell mins =
     (let present = map the (filter (\<lambda>m. m \<noteq> None) mins)
      in ((if present \<noteq> [] then Mean (sum_list present / real (length present)) else No_data),
          (if length present = length mins then None else Some (length present, length mins))))"
proof -
  have "truthy m = (m \<noteq> None)" if "m \<in> set mins" for m
  proof (cases m)
    case None
    then show ?thesis by simp
  next
    case (Some x)
    with that assms have "x \<noteq> 0" by metis
    with Some show ?thesis by simp
  qed
  then have "filter truthy mins = filter (\<lambda>m. m \<noteq> None) mins"
    by (simp cong: filter_cong)
  then show ?thesis
    by (simp add: cell_def Let_def)
qed

text \<open>
  The examples of the specification: the minimums 10, 20 and an absent one give the
  mean 15 with the counts 2 of 3; two absent ones give no data, with the counts 0 of 2.
\<close>

lemma cell_examples:
  "cell [Some 10, Some 20, None] = (Mean 15, Some (2, 3))"
  "cell [None, None] = (No_data, Some (0, 2))"
  by (simp_all add: cell_def)

section \<open>Properties of the scheduler's semaphore\<close>

lemma filter_update_count:
  "i < length xs \<Longrightarrow>
   length (filter P (xs[i := y])) + (if P (xs ! i) then 1 else 0) =
   length (filter P xs) + (if P y then 1 else 0)"
proof (induction xs arbitrary: i)
  case Nil
  then show ?case by simp
next
  case (Cons x xs)
  then show ?case by (cases i) auto
qed

lemma step_keeps_slots:
  assumes "step ev s = Some s'"
  shows "in_flight s' + sem s' = in_flight s + sem s"
proof (cases ev)
  case (Acquire i)
  with assms have a: "i < length (phases s)" "phases s ! i = Waiting" "0 < sem s"
    and s': "s' = move s i Resolving (sem s - 1)"
    by (auto simp: at_phase_def split: if_splits)
  from filter_update_count[OF a(1), of "\<lambda>p. p = Resolving \<or> p = Probing" Resolving] a s'
  show ?thesis by (simp add: in_flight_def move_def)
next
  case (Cancel_waiting i)
  with assms have a: "i < length (phases s)" "phases s ! i = Waiting"
    and s': "s' = move s i Finished (sem s)"
    by (auto simp: at_phase_def split: if_splits)
  from filter_update_count[OF a(1), of "\<lambda>p. p = Resolving \<or> p = Probing" Finished] a s'
  show ?thesis by (simp add: in_flight_def move_def)
next
  case (Dig_returns_addr i)
  with assms have a: "i < length (phases s)" "phases s ! i = Resolving"
    and s': "s' = move s i Probing (sem s)"
    by (auto simp: at_phase_def split: if_splits)
  from filter_update_count[OF a(1), of "\<lambda>p. p = Resolving \<or> p = Probing" Probing] a s'
  show ?thesis by (simp add: in_flight_def move_def)
next
  case (Dig_leaves i)
  with assms have a: "i < length (phases s)" "phases s ! i = Resolving"
    and s': "s' = move s i Finished (sem s + 1)"
    by (auto simp: at_phase_def split: if_splits)
  from filter_update_count[OF a(1), of "\<lambda>p. p = Resolving \<or> p = Probing" Finished] a s'
  show ?thesis by (simp add: in_flight_def move_def)
next
  case (Ping_leaves i)
  with assms have a: "i < length (phases s)" "phases s ! i = Probing"
    and s': "s' = move s i Finished (sem s + 1)"
    by (auto simp: at_phase_def split: if_splits)
  from filter_update_count[OF a(1), of "\<lambda>p. p = Resolving \<or> p = Probing" Finished] a s'
  show ?thesis by (simp add: in_flight_def move_def)
qed

lemma run_keeps_slots:
  "run evs s = Some s' \<Longrightarrow> in_flight s' + sem s' = in_flight s + sem s"
proof (induction evs arbitrary: s)
  case Nil
  then show ?case by simp
next
  case (Cons ev evs)
  then obtain s1 where s1: "step ev s = Some s1" and r: "run evs s1 = Some s'"
    by (auto split: option.splits)
  from Cons.IH[OF r] step_keeps_slots[OF s1] show ?case by simp
qed

lemma in_flight_start: "in_flight (start n) = 0"
  by (simp add: in_flight_def start_def)

text \<open>
  C10. After any interleaving of the tasks' steps from the start of a batch, the tasks
  that have entered the \<^verbatim>\<open>async with\<close> block (begun to resolve) and not yet left it
  (ended the probe, or left earlier) hold exactly the slots missing from the semaphore,
  so they are never more than 50.
\<close>

theorem in_flight_bounded:
  assumes "run evs (start n) = Some s"
  shows "in_flight s + sem s = semaphore_value \<and> in_flight s \<le> 50"
  using run_keeps_slots[OF assms] in_flight_start[of n]
  by (simp add: start_def semaphore_value_def)

theorem in_flight_bounded_witness:
  "run [Acquire 0, Acquire 2, Dig_returns_addr 0, Dig_leaves 2, Acquire 1] (start 3)
     = Some \<lparr>phases = [Probing, Resolving, Finished], sem = 48\<rparr>
   \<and> in_flight \<lparr>phases = [Probing, Resolving, Finished], sem = 48\<rparr> + 48 = semaphore_value
   \<and> in_flight \<lparr>phases = [Probing, Resolving, Finished], sem = 48\<rparr> \<le> 50"
proof -
  have r: "run [Acquire 0, Acquire 2, Dig_returns_addr 0, Dig_leaves 2, Acquire 1] (start 3)
     = Some \<lparr>phases = [Probing, Resolving, Finished], sem = 48\<rparr>"
    by (simp add: start_def semaphore_value_def at_phase_def move_def numeral_3_eq_3)
  from in_flight_bounded[OF r] r show ?thesis by simp
qed

end
